theory Spec2Isabelle
  imports Main
begin

section \<open>Data model of package pub\<close>

text \<open>
  A Go value of type \<open>interface{}\<close> that travels through the graph. Only its runtime
  class matters to the engine: the type assertion \<open>v.(error)\<close> succeeds exactly on
  \<open>VErr\<close>. \<open>VNil\<close> is the nil interface.
\<close>

datatype val = VNil | VErr string | VInt int | VStr string

text \<open>\<open>err, ok := v.(error)\<close>: the error (nil when the assertion fails) and the flag.\<close>

fun assertError :: "val \<Rightarrow> string option \<times> bool" where
  "assertError (VErr e) = (Some e, True)"
| "assertError v = (None, False)"

text \<open>An \<open>error\<close> passed where an \<open>interface{}\<close> is expected; a nil error is the nil interface.\<close>

fun ofError :: "string option \<Rightarrow> val" where
  "ofError None = VNil"
| "ofError (Some e) = VErr e"

text \<open>
  \<open>context.Context\<close> of the collaborating package: \<open>context.New()\<close> or one supplied by
  the caller. The engine never looks inside.
\<close>

datatype carrier = NewContext | UserContext nat

text \<open>
  Nodes live in a store and are named by their address (a \<open>*pub\<close>). The struct
  \<open>contxt\<close> pairs the carrier with the \<open>ReadWriter\<close> of the node that built it.
\<close>

type_synonym node = nat

record contxt =
  ctx :: carrier
  rw :: node

text \<open>\<open>NthFinder\<close>; Go's \<open>int\<close> indices stay far below the word size, so \<open>int\<close> is used.\<close>

type_synonym NthFinder = "int \<Rightarrow> int \<Rightarrow> int"

text \<open>
  What a handler body does, in order. A handler reaches the engine through the
  \<open>ReadWriter\<close> surface (\<open>Read\<close>, \<open>Write\<close>, \<open>WriteEvery\<close>) of its \<open>Ctx\<close> or of a node
  it captured; anything else it does (counting, recording) is an opaque \<open>Effect\<close>.
\<close>

datatype cmd =
    CWrite node contxt val
  | CWriteEvery node contxt val "NthFinder option"
  | CRead node val "carrier list"
  | Effect string

type_synonym Handler = "contxt \<Rightarrow> string option \<Rightarrow> val \<Rightarrow> cmd list"
type_synonym DataHandler = "contxt \<Rightarrow> val \<Rightarrow> cmd list"
type_synonym ErrorHandler = "contxt \<Rightarrow> string option \<Rightarrow> cmd list"

text \<open>The struct \<open>pub\<close> without its lock; \<open>uuid\<close> is the opaque fresh identifier.\<close>

record pub =
  uuid :: nat
  op :: Handler
  root :: "node option"
  async :: bool
  subs :: "node list"

text \<open>What can be observed of a run: entries into the engine and handler invocations.\<close>

datatype event =
    EvWrite node contxt val
  | EvWriteEvery node contxt val
  | EvHandler node contxt "string option" val
  | EvSpawn node contxt "string option" val
  | EvEffect string
  | EvPrintf string

record world =
  heap :: "pub list"
  trace :: "event list"

datatype fault = NilDereference | IndexOutOfRange | OutOfFuel

text \<open>A call either returns, or stops with a fault in the world it had reached.\<close>

type_synonym 'a result = "(fault \<times> world) + 'a"

definition emit :: "event \<Rightarrow> world \<Rightarrow> world" where
  "emit e w = w\<lparr>trace := trace w @ [e]\<rparr>"

definition deref :: "world \<Rightarrow> node \<Rightarrow> pub option" where
  "deref w p = (if p < length (heap w) then Some (heap w ! p) else None)"

section \<open>Constructors and handler wrappers\<close>

definition alloc :: "Handler \<Rightarrow> bool \<Rightarrow> world \<Rightarrow> node \<times> world" where
  "alloc h a w =
     (length (heap w),
      w\<lparr>heap := heap w @ [\<lparr>uuid = length (heap w), op = h, root = None, async = a, subs = []\<rparr>]\<rparr>)"

definition Sync :: "Handler \<Rightarrow> world \<Rightarrow> node \<times> world" where
  "Sync h w = alloc h False w"

definition ASync :: "Handler \<Rightarrow> world \<Rightarrow> node \<times> world" where
  "ASync h w = alloc h True w"

definition WrapData :: "DataHandler \<Rightarrow> Handler" where
  "WrapData dh = (\<lambda>m err data.
     if err \<noteq> None then [CWrite (rw m) m (ofError err)]
     else dh m data)"

definition WrapError :: "ErrorHandler \<Rightarrow> Handler" where
  "WrapError dh = (\<lambda>m err data.
     if err = None then dh m err
     else [CWrite (rw m) m data])"

definition DSync :: "DataHandler \<Rightarrow> world \<Rightarrow> node \<times> world" where
  "DSync dh w = alloc (WrapData dh) False w"

definition DASync :: "DataHandler \<Rightarrow> world \<Rightarrow> node \<times> world" where
  "DASync dh w = alloc (WrapData dh) True w"

section \<open>Write and WriteEvery\<close>

text \<open>
  \<open>Write\<close> calls \<open>Write\<close> on every subscriber, which calls it on theirs. On a cyclic
  graph this never returns, so the recursion carries fuel. \<open>Write_range\<close> is the
  \<open>range p.subs\<close> loop.
\<close>

fun Write :: "nat \<Rightarrow> node \<Rightarrow> contxt \<Rightarrow> val \<Rightarrow> world \<Rightarrow> world result"
  and Write_range :: "nat \<Rightarrow> node list \<Rightarrow> contxt \<Rightarrow> bool \<Rightarrow> string option \<Rightarrow> val \<Rightarrow> world \<Rightarrow> world result"
  where
  "Write 0 p c v w = Inl (OutOfFuel, w)"
| "Write (Suc n) p c v w =
     (let w1 = emit (EvWrite p c v) w;
          ctxn = \<lparr>ctx = ctx c, rw = p\<rparr>;
          (err, ok) = assertError v;
          isErr = ok
      in case deref w1 p of
           None \<Rightarrow> Inl (NilDereference, w1)
         | Some pb \<Rightarrow> Write_range n (subs pb) ctxn isErr err v w1)"
| "Write_range n [] ctxn isErr err v w = Inr w"
| "Write_range n (nd # nodes) ctxn isErr err v w =
     (case (if isErr then Write n nd ctxn (ofError err) w else Write n nd ctxn v w) of
        Inl f \<Rightarrow> Inl f
      | Inr w' \<Rightarrow> Write_range n nodes ctxn isErr err v w')"

definition defaultFinder :: NthFinder where
  "defaultFinder index len = index"

function WriteEvery_loop ::
  "nat \<Rightarrow> nat \<Rightarrow> nat \<Rightarrow> NthFinder \<Rightarrow> node list \<Rightarrow> contxt \<Rightarrow> bool \<Rightarrow> string option \<Rightarrow> val \<Rightarrow> world
     \<Rightarrow> world result" where
  "WriteEvery_loop n index nlen finder sbs ctxn isErr err v w =
     (if index < nlen then
        (let newIndex = finder (int index) (int nlen) in
         if newIndex > 0 \<and> newIndex < int nlen then
           (if index < length sbs then
              (let nd = sbs ! index in
               case (if isErr then Write n nd ctxn (ofError err) w else Write n nd ctxn v w) of
                 Inl f \<Rightarrow> Inl f
               | Inr w' \<Rightarrow> WriteEvery_loop n (Suc index) nlen finder sbs ctxn isErr err v w')
            else Inl (IndexOutOfRange, w))
         else WriteEvery_loop n (Suc index) nlen finder sbs ctxn isErr err v w)
      else Inr w)"
  by pat_completeness auto
termination
  by (relation "measure (\<lambda>(n, index, nlen, finder, sbs, ctxn, isErr, err, v, w). nlen - index)") auto

definition WriteEvery :: "nat \<Rightarrow> node \<Rightarrow> contxt \<Rightarrow> val \<Rightarrow> NthFinder option \<Rightarrow> world \<Rightarrow> world result" where
  "WriteEvery n p c v finder w =
     (let w1 = emit (EvWriteEvery p c v) w;
          ctxn = \<lparr>ctx = ctx c, rw = p\<rparr>;
          finder' = (case finder of None \<Rightarrow> defaultFinder | Some f \<Rightarrow> f);
          (err, ok) = assertError v;
          isErr = ok
      in case deref w1 p of
           None \<Rightarrow> Inl (NilDereference, w1)
         | Some pb \<Rightarrow>
             WriteEvery_loop n 0 (length (subs pb)) finder' (subs pb) ctxn isErr err v w1)"

section \<open>Read\<close>

text \<open>
  \<open>Read\<close> runs the handler inline on a synchronous node and runs what the handler
  body asks for (\<open>exec\<close>). On an asynchronous node the call is handed to a goroutine
  and \<open>Read\<close> returns; the trace records the hand-over only. A handler may call
  \<open>Read\<close> again without end, hence the fuel.
\<close>

fun Read :: "nat \<Rightarrow> node \<Rightarrow> val \<Rightarrow> carrier list \<Rightarrow> world \<Rightarrow> world result"
  and exec :: "nat \<Rightarrow> cmd list \<Rightarrow> world \<Rightarrow> world result"
  where
  "Read 0 p b ctxs w = Inl (OutOfFuel, w)"
| "Read (Suc n) p b ctxs w =
     (let c = (case ctxs of [] \<Rightarrow> NewContext | c0 # _ \<Rightarrow> c0);
          ctxn = \<lparr>ctx = c, rw = p\<rparr>
      in case deref w p of
           None \<Rightarrow> Inl (NilDereference, w)
         | Some pb \<Rightarrow>
            (case assertError b of
               (err, True) \<Rightarrow>
                 if async pb then Inr (emit (EvSpawn p ctxn err VNil) w)
                 else exec n (op pb ctxn err VNil) (emit (EvHandler p ctxn err VNil) w)
             | (err, False) \<Rightarrow>
                 if async pb then Inr (emit (EvSpawn p ctxn None b) w)
                 else exec n (op pb ctxn None b) (emit (EvHandler p ctxn None b) w)))"
| "exec n [] w = Inr w"
| "exec n (c # cs) w =
     (case (case c of
              CWrite q m v \<Rightarrow> Write n q m v w
            | CWriteEvery q m v f \<Rightarrow> WriteEvery n q m v f w
            | CRead q v cx \<Rightarrow> Read n q v cx w
            | Effect s \<Rightarrow> Inr (emit (EvEffect s) w)) of
        Inl f \<Rightarrow> Inl f
      | Inr w' \<Rightarrow> exec n cs w')"

section \<open>Signal and AsyncSignal\<close>

text \<open>
  Package \<open>reflection\<close> is not among the sources; what its functions return is a
  parameter of the model. \<open>'x\<close> is the type of the values that reach the \<open>default\<close>
  branch of the type switch, \<open>'ty\<close> stands for \<open>reflect.Type\<close>. \<open>CanSetForType\<close> gives
  the first of the two results, the only one \<open>Signal\<close> reads. \<open>Call\<close> is
  \<open>reflection.FuncValue(node).Call\<close> on the context, the error and the third
  \<open>reflect.Value\<close> (\<open>None\<close> is the zero \<open>reflect.Value\<close>).
\<close>

record ('x, 'ty) reflection =
  IsFuncType :: "'x \<Rightarrow> bool"
  GetFuncArgumentsType :: "'x \<Rightarrow> 'ty list"
  CanSetForType :: "'ty \<Rightarrow> 'ty \<Rightarrow> bool"
  CanSetFor :: "'ty \<Rightarrow> val \<Rightarrow> bool \<times> bool"
  Convert :: "'ty \<Rightarrow> val \<Rightarrow> val \<times> string option"
  Call :: "'x \<Rightarrow> contxt \<Rightarrow> string option \<Rightarrow> val option \<Rightarrow> cmd list"
  ctxType :: "'ty"
  errorType :: "'ty"

text \<open>The argument of \<open>Signal\<close>, by the case of the type switch it takes.\<close>

datatype 'x sigarg =
    ANode node
  | AHandler Handler
  | AErrorHandler ErrorHandler
  | ADataHandler DataHandler
  | AOther 'x

text \<open>The closure built in the \<open>default\<close> branch once the shape is accepted.\<close>

definition adapted :: "('x, 'ty) reflection \<Rightarrow> 'x \<Rightarrow> 'ty \<Rightarrow> Handler" where
  "adapted R nd data = (\<lambda>m err v.
     if err \<noteq> None then Call R nd m err None
     else
       (let (ok, convert) = CanSetFor R data v in
        if \<not> ok then []
        else if convert then
          (case Convert R data v of
             (relVal, Some e) \<Rightarrow> []
           | (relVal, None) \<Rightarrow> Call R nd m err (Some relVal))
        else Call R nd m err None))"

text \<open>
  The type switch: the node to register, or \<open>None\<close> where the code returns nil early.
  The flag says whether new nodes are made by \<open>ASync\<close> (in \<open>AsyncSignal\<close>) or by
  \<open>Sync\<close> (in \<open>Signal\<close>).
\<close>

definition resolve ::
  "bool \<Rightarrow> ('x, 'ty) reflection \<Rightarrow> 'x sigarg \<Rightarrow> world \<Rightarrow> node option \<times> world" where
  "resolve a R nd w =
     (case nd of
        ANode n \<Rightarrow> (Some n, w)
      | AHandler h \<Rightarrow> (let (n, w1) = alloc h a w in (Some n, w1))
      | AErrorHandler dh \<Rightarrow>
          (let (n, w1) = alloc (\<lambda>m err v. if err = None then dh m err
                                           else [CWrite (rw m) m v]) a w
           in (Some n, w1))
      | ADataHandler dh \<Rightarrow>
          (let (n, w1) = alloc (\<lambda>m err v. if err \<noteq> None then [CWrite (rw m) m (ofError err)]
                                           else dh m v) a w
           in (Some n, w1))
      | AOther x \<Rightarrow>
          (let w0 = emit (EvPrintf (''Calling sync default'' @ [CHR 0x0A])) w in
           if \<not> IsFuncType R x then (None, w0)
           else
             (let args = GetFuncArgumentsType R x; alen = length args in
              if alen < 3 \<or> alen > 3 then (None, w0)
              else if \<not> CanSetForType R (ctxType R) (args ! 0) then (None, w0)
              else if \<not> CanSetForType R (errorType R) (args ! 1) then (None, w0)
              else
                (let data = args ! 2;
                     (n, w1) = alloc (adapted R x data) a w0
                 in (Some n, w1)))))"

text \<open>
  After the switch: \<open>p.subs = append(p.subs, n)\<close> under the lock, and \<open>n\<close> is returned.
  A receiver \<open>p\<close> that is no node of the caller's store faults at the lock.
\<close>

definition signal_with ::
  "bool \<Rightarrow> ('x, 'ty) reflection \<Rightarrow> node \<Rightarrow> 'x sigarg \<Rightarrow> world \<Rightarrow> (node option \<times> world) result" where
  "signal_with a R p nd w =
     (case resolve a R nd w of
        (None, w1) \<Rightarrow> Inr (None, w1)
      | (Some n, w1) \<Rightarrow>
          if p < length (heap w)
          then Inr (Some n, w1\<lparr>heap := (heap w1)[p := (heap w1 ! p)\<lparr>subs := subs (heap w1 ! p) @ [n]\<rparr>]\<rparr>)
          else Inl (NilDereference, w1))"

text \<open>
  \<open>Signal\<close> and \<open>AsyncSignal\<close> are the same text but for \<open>Sync\<close> against \<open>ASync\<close>.
\<close>

definition Signal :: "('x, 'ty) reflection \<Rightarrow> node \<Rightarrow> 'x sigarg \<Rightarrow> world \<Rightarrow> (node option \<times> world) result" where
  "Signal R p nd w = signal_with False R p nd w"

definition AsyncSignal :: "('x, 'ty) reflection \<Rightarrow> node \<Rightarrow> 'x sigarg \<Rightarrow> world \<Rightarrow> (node option \<times> world) result" where
  "AsyncSignal R p nd w = signal_with True R p nd w"

definition SignalD :: "('x, 'ty) reflection \<Rightarrow> node \<Rightarrow> DataHandler \<Rightarrow> world \<Rightarrow> (node option \<times> world) result" where
  "SignalD R p dh w = Signal R p (AHandler (WrapData dh)) w"

definition AsyncSignalD :: "('x, 'ty) reflection \<Rightarrow> node \<Rightarrow> DataHandler \<Rightarrow> world \<Rightarrow> (node option \<times> world) result" where
  "AsyncSignalD R p dh w = AsyncSignal R p (AHandler (WrapData dh)) w"

definition SignalE :: "('x, 'ty) reflection \<Rightarrow> node \<Rightarrow> ErrorHandler \<Rightarrow> world \<Rightarrow> (node option \<times> world) result" where
  "SignalE R p dh w = Signal R p (AHandler (WrapError dh)) w"

definition AsyncSignalE :: "('x, 'ty) reflection \<Rightarrow> node \<Rightarrow> ErrorHandler \<Rightarrow> world \<Rightarrow> (node option \<times> world) result" where
  "AsyncSignalE R p dh w = AsyncSignal R p (AHandler (WrapError dh)) w"

section \<open>Lift and DeLift\<close>

text \<open>Indexing a Go slice: out of range is a run-time panic.\<close>

definition at :: "'a list \<Rightarrow> int \<Rightarrow> 'a option" where
  "at xs i = (if 0 \<le> i \<and> i < int (length xs) then Some (xs ! nat i) else None)"

function Lift_loop :: "('x, 'ty) reflection \<Rightarrow> int \<Rightarrow> node list \<Rightarrow> world \<Rightarrow> world result" where
  "Lift_loop R index rws w =
     (if index < int (length rws) then
        (if index < 1 then Lift_loop R (index + 1) rws w
         else
           (case at rws index of
              None \<Rightarrow> Inl (IndexOutOfRange, w)
            | Some nd \<Rightarrow>
               (case at rws (index - 1) of
                  None \<Rightarrow> Inl (IndexOutOfRange, w)
                | Some pnode \<Rightarrow>
                   (case Signal R pnode (ANode nd) w of
                      Inl f \<Rightarrow> Inl f
                    | Inr (r, w') \<Rightarrow> Lift_loop R (index + 1) rws w'))))
      else Inr w)"
  by pat_completeness auto
termination
  by (relation "measure (\<lambda>(R, index, rws, w). nat (int (length rws) - index))") auto

definition Lift :: "('x, 'ty) reflection \<Rightarrow> node list \<Rightarrow> world \<Rightarrow> world result" where
  "Lift R rws w = Lift_loop R 0 rws w"

function DeLift_loop :: "('x, 'ty) reflection \<Rightarrow> int \<Rightarrow> node list \<Rightarrow> world \<Rightarrow> world result" where
  "DeLift_loop R index rws w =
     (if index \<ge> 0 then
        (if index \<ge> int (length rws) - 1 then DeLift_loop R (index - 1) rws w
         else
           (case at rws index of
              None \<Rightarrow> Inl (IndexOutOfRange, w)
            | Some pnode \<Rightarrow>
               (case at rws (index - 1) of
                  None \<Rightarrow> Inl (IndexOutOfRange, w)
                | Some nd \<Rightarrow>
                   (case Signal R pnode (ANode nd) w of
                      Inl f \<Rightarrow> Inl f
                    | Inr (r, w') \<Rightarrow> DeLift_loop R (index - 1) rws w'))))
      else Inr w)"
  by pat_completeness auto
termination
  by (relation "measure (\<lambda>(R, index, rws, w). nat (index + 1))") auto

definition DeLift :: "('x, 'ty) reflection \<Rightarrow> node list \<Rightarrow> world \<Rightarrow> world result" where
  "DeLift R rws w = DeLift_loop R (int (length rws) - 1) rws w"

declare WriteEvery_loop.simps [simp del]
declare Lift_loop.simps [simp del]
declare DeLift_loop.simps [simp del]

section \<open>Observation and example graphs\<close>

text \<open>The world a call leaves behind, whether it returned or stopped with a fault.\<close>

definition final :: "world result \<Rightarrow> world" where
  "final r = (case r of Inl (f, w) \<Rightarrow> w | Inr w \<Rightarrow> w)"

text \<open>Events that are entries into some node's \<open>Write\<close>.\<close>

fun is_write :: "event \<Rightarrow> bool" where
  "is_write (EvWrite q m v) = True"
| "is_write e = False"

text \<open>
  \<open>within n h p\<close>: \<open>p\<close> and all nodes reachable from it through subscriber lists are
  allocated, and no subscriber path from \<open>p\<close> has more than \<open>n\<close> nodes. It fails for
  every \<open>n\<close> on a cycle.
\<close>

fun within :: "nat \<Rightarrow> pub list \<Rightarrow> node \<Rightarrow> bool" where
  "within 0 h p = False"
| "within (Suc n) h p = (p < length h \<and> list_all (within n h) (subs (h ! p)))"


text \<open>Callers that pass nothing to the \<open>default\<close> branch need no reflection.\<close>

definition no_reflection :: "(unit, unit) reflection" where
  "no_reflection = \<lparr>IsFuncType = (\<lambda>x. False), GetFuncArgumentsType = (\<lambda>x. []),
     CanSetForType = (\<lambda>t u. False), CanSetFor = (\<lambda>t v. (False, False)),
     Convert = (\<lambda>t v. (VNil, None)), Call = (\<lambda>x m e v. []), ctxType = (), errorType = ()\<rparr>"

text \<open>
  The handler of \<open>TestMousePosition\<close>: it writes what it gets to its own node and
  counts the data it saw.
\<close>

definition forwarder :: Handler where
  "forwarder = (\<lambda>r err data.
     if err \<noteq> None then [CWrite (rw r) r (ofError err)]
     else [CWrite (rw r) r data, Effect ''count''])"

text \<open>A handler that records that it ran.\<close>

definition recorder :: Handler where
  "recorder = (\<lambda>r err data. [Effect ''record''])"

text \<open>Three fresh synchronous nodes \<open>a = 0\<close>, \<open>b = 1\<close>, \<open>c = 2\<close>, not yet connected.\<close>

definition three_nodes :: world where
  "three_nodes =
     snd (Sync recorder (snd (Sync recorder (snd (Sync forwarder \<lparr>heap = [], trace = []\<rparr>)))))"

text \<open>Node 0 runs \<open>forwarder\<close> and has the recording nodes 1 and 2 as subscribers; 2 is also a subscriber of 1.\<close>

definition fan :: world where
  "fan = \<lparr>heap = [\<lparr>uuid = 0, op = forwarder, root = None, async = False, subs = [1, 2]\<rparr>,
                   \<lparr>uuid = 1, op = recorder, root = None, async = False, subs = [2]\<rparr>,
                   \<lparr>uuid = 2, op = recorder, root = None, async = False, subs = []\<rparr>],
           trace = []\<rparr>"

text \<open>The guard of the \<open>WriteEvery\<close> loop at one position.\<close>

definition selected :: "NthFinder \<Rightarrow> nat \<Rightarrow> nat \<Rightarrow> bool" where
  "selected finder nlen index =
     (0 < finder (int index) (int nlen) \<and> finder (int index) (int nlen) < int nlen)"

text \<open>
  A reflection over shapes written out: a value is a function given by the names of its
  parameter types, or no function at all; a type fits a target when it is that type.
\<close>

definition shapes :: "(string list option, string) reflection" where
  "shapes = \<lparr>IsFuncType = (\<lambda>x. x \<noteq> None),
     GetFuncArgumentsType = (\<lambda>x. case x of None \<Rightarrow> [] | Some ts \<Rightarrow> ts),
     CanSetForType = (\<lambda>t u. t = u),
     CanSetFor = (\<lambda>t v. (True, False)),
     Convert = (\<lambda>t v. (v, None)),
     Call = (\<lambda>x m e v. [Effect ''call'']),
     ctxType = ''pub.Ctx'', errorType = ''error''\<rparr>"

text \<open>An error-only handler that notes that it ran, and a node made from it.\<close>

definition watcher :: ErrorHandler where
  "watcher = (\<lambda>m err. [Effect ''seen''])"

definition guarded :: world where
  "guarded = snd (Sync (WrapError watcher) \<lparr>heap = [], trace = []\<rparr>)"

text \<open>Events that are inline invocations of a node's handler.\<close>

fun is_handler :: "event \<Rightarrow> bool" where
  "is_handler (EvHandler q m e v) = True"
| "is_handler e = False"

text \<open>
  A command of a handler body that is no \<open>Read\<close>, and whose \<open>Write\<close> or \<open>WriteEvery\<close>
  lands on a finite part of the graph.
\<close>

fun stays_within :: "nat \<Rightarrow> pub list \<Rightarrow> cmd \<Rightarrow> bool" where
  "stays_within n h (CWrite q m v) = within n h q"
| "stays_within n h (CWriteEvery q m v f) = (q < length h \<and> list_all (within n h) (subs (h ! q)))"
| "stays_within n h (CRead q v cx) = False"
| "stays_within n h (Effect s) = True"

text \<open>The loop of \<open>TestMousePosition\<close>: one \<open>Read\<close> after the other on the same node.\<close>

fun Read_each :: "nat \<Rightarrow> node \<Rightarrow> val list \<Rightarrow> world \<Rightarrow> world result" where
  "Read_each n p [] w = Inr w"
| "Read_each n p (b # bs) w =
     (case Read n p b [] w of Inl f \<Rightarrow> Inl f | Inr w' \<Rightarrow> Read_each n p bs w')"

text \<open>
  The invocation the specification expects of \<open>Read(b)\<close>: the error and no payload for
  an error-class value, no error and the value itself otherwise.
\<close>

definition invocation :: "node \<Rightarrow> contxt \<Rightarrow> val \<Rightarrow> event" where
  "invocation p m b = (case b of VErr e \<Rightarrow> EvHandler p m (Some e) VNil | _ \<Rightarrow> EvHandler p m None b)"

section \<open>Frame and shape of a fan-out\<close>

lemma final_simps [simp]: "final (Inl (f, w)) = w" "final (Inr w) = w"
  by (simp_all add: final_def)

lemma emit_simps [simp]: "heap (emit e w) = heap w" "trace (emit e w) = trace w @ [e]"
  by (simp_all add: emit_def)

lemma deref_emit [simp]: "deref (emit e w) p = deref w p"
  by (simp add: deref_def)

lemma Write_frame:
  "heap (final (Write n p c v w)) = heap w \<and>
     (\<exists>tr. trace (final (Write n p c v w)) = trace w @ tr \<and> list_all is_write tr)"
  "heap (final (Write_range n nodes ctxn isErr err v w)) = heap w \<and>
     (\<exists>tr. trace (final (Write_range n nodes ctxn isErr err v w)) = trace w @ tr \<and> list_all is_write tr)"
proof (induction n p c v w and n nodes ctxn isErr err v w rule: Write_Write_range.induct)
  case (1 p c v w)
  then show ?case by simp
next
  case (2 n p c v w)
  show ?case
  proof (cases "deref w p")
    case None
    then show ?thesis by (simp add: Let_def split: prod.splits)
  next
    case (Some pb)
    obtain err ok where a: "assertError v = (err, ok)" by (cases "assertError v")
    from "2.IH"[OF refl refl a[symmetric] refl refl, of pb] Some
    show ?thesis using a by (auto simp: Let_def)
  qed
next
  case (3 n ctxn isErr err v w)
  then show ?case by simp
next
  case (4 n nd nodes ctxn isErr err v w)
  let ?r = "if isErr then Write n nd ctxn (ofError err) w else Write n nd ctxn v w"
  have h: "heap (final ?r) = heap w \<and> (\<exists>tr. trace (final ?r) = trace w @ tr \<and> list_all is_write tr)"
    using "4.IH"(1,2) by (cases isErr) auto
  show ?case
  proof (cases ?r)
    case (Inl fw)
    then show ?thesis using h by (cases fw) auto
  next
    case (Inr w')
    from "4.IH"(3)[OF Inr] h Inr show ?thesis by auto
  qed
qed

lemma assertError_same: "assertError v = (err, ok) \<Longrightarrow> (if ok then ofError err else v) = v"
  by (cases v) auto

lemma Write_first:
  assumes "Write n p c v w = Inr w'"
  shows "p < length (heap w) \<and> (\<exists>m. n = Suc m \<and>
           Write_range m (subs (heap w ! p)) \<lparr>ctx = ctx c, rw = p\<rparr>
             (snd (assertError v)) (fst (assertError v)) v (emit (EvWrite p c v) w) = Inr w')"
proof (cases n)
  case 0
  with assms show ?thesis by simp
next
  case (Suc m)
  with assms show ?thesis
    by (auto simp: Let_def deref_def split: prod.splits if_splits)
qed

lemma Write_head:
  assumes "Write n p c v w = Inr w'"
  shows "\<exists>rest. trace w' = trace w @ EvWrite p c v # rest \<and> list_all is_write rest"
proof -
  from Write_first[OF assms] obtain m where
    r: "Write_range m (subs (heap w ! p)) \<lparr>ctx = ctx c, rw = p\<rparr>
             (snd (assertError v)) (fst (assertError v)) v (emit (EvWrite p c v) w) = Inr w'"
    by blast
  from Write_frame(2)[of m "subs (heap w ! p)" "\<lparr>ctx = ctx c, rw = p\<rparr>"
      "snd (assertError v)" "fst (assertError v)" v "emit (EvWrite p c v) w"] r
  show ?thesis by auto
qed

lemma Write_range_shape:
  "Write_range n nodes ctxn isErr err v w = Inr w' \<Longrightarrow>
   \<exists>trs. list_all2 (\<lambda>s tr. \<exists>rest. tr = EvWrite s ctxn (if isErr then ofError err else v) # rest
                              \<and> list_all is_write rest) nodes trs
         \<and> trace w' = trace w @ concat trs"
proof (induction nodes arbitrary: w)
  case Nil
  then show ?case by simp
next
  case (Cons nd nodes)
  let ?v = "if isErr then ofError err else v"
  from Cons.prems obtain w1 where
    a: "Write n nd ctxn ?v w = Inr w1" and
    b: "Write_range n nodes ctxn isErr err v w1 = Inr w'"
    by (auto split: sum.splits if_splits)
  from Write_head[OF a] obtain rest where
    c: "trace w1 = trace w @ EvWrite nd ctxn ?v # rest" "list_all is_write rest" by blast
  from Cons.IH[OF b] obtain trs where
    d: "list_all2 (\<lambda>s tr. \<exists>rest. tr = EvWrite s ctxn ?v # rest \<and> list_all is_write rest) nodes trs"
       "trace w' = trace w1 @ concat trs" by blast
  have "list_all2 (\<lambda>s tr. \<exists>rest. tr = EvWrite s ctxn ?v # rest \<and> list_all is_write rest)
          (nd # nodes) ((EvWrite nd ctxn ?v # rest) # trs)"
    using c(2) d(1) by simp
  moreover have "trace w' = trace w @ concat ((EvWrite nd ctxn ?v # rest) # trs)"
    using c(1) d(2) by simp
  ultimately show ?case by blast
qed

lemma Write_returns:
  "within n (heap w) p \<Longrightarrow> \<exists>w'. Write n p c v w = Inr w'"
  "list_all (within n (heap w)) nodes \<Longrightarrow> \<exists>w'. Write_range n nodes ctxn isErr err v w = Inr w'"
proof (induction n p c v w and n nodes ctxn isErr err v w rule: Write_Write_range.induct)
  case (1 p c v w)
  then show ?case by simp
next
  case (2 n p c v w)
  obtain err ok where a: "assertError v = (err, ok)" by (cases "assertError v")
  from "2.prems" have v: "p < length (heap w)" and s: "list_all (within n (heap w)) (subs (heap w ! p))"
    by simp_all
  have d: "deref (emit (EvWrite p c v) w) p = Some (heap w ! p)" using v by (simp add: deref_def)
  from "2.IH"[OF refl refl a[symmetric] refl refl d] s
  show ?case using a d by (simp add: Let_def)
next
  case (3 n ctxn isErr err v w)
  then show ?case by simp
next
  case (4 n nd nodes ctxn isErr err v w)
  let ?r = "if isErr then Write n nd ctxn (ofError err) w else Write n nd ctxn v w"
  from "4.prems" have x: "within n (heap w) nd" and y: "list_all (within n (heap w)) nodes" by simp_all
  from "4.IH"(1,2) x obtain w1 where r: "?r = Inr w1" by (cases isErr) auto
  have "heap w1 = heap w"
    using Write_frame(1)[of n nd ctxn "ofError err" w] Write_frame(1)[of n nd ctxn v w] r
    by (cases isErr) auto
  with "4.IH"(3)[OF r] y r show ?case by simp
qed

text \<open>
  C3. \<open>Write(ctx, v)\<close> never changes the store and adds only \<open>Write\<close> entries to the
  trace, so no handler runs, here or further down. When it returns, the trace gained
  the entry of the call itself and then, for each subscriber of the node in
  registration order, one block that starts with that subscriber's \<open>Write\<close> entry
  carrying the same value \<open>v\<close> (error-class and data-class values alike) and the
  context rebuilt around the writing node. It returns whenever the graph below the
  node is finite and allocated (\<open>within\<close>).
\<close>

theorem Write_forwards_to_every_subscriber:
  "heap (final (Write n p c v w)) = heap w
   \<and> (\<exists>tr. trace (final (Write n p c v w)) = trace w @ tr \<and> list_all is_write tr)
   \<and> (Write n p c v w = Inr w' \<longrightarrow>
        p < length (heap w) \<and>
        (\<exists>trs. list_all2 (\<lambda>s tr. \<exists>rest. tr = EvWrite s \<lparr>ctx = ctx c, rw = p\<rparr> v # rest)
                  (subs (heap w ! p)) trs
               \<and> trace w' = trace w @ EvWrite p c v # concat trs))
   \<and> (within n (heap w) p \<longrightarrow> (\<exists>w'. Write n p c v w = Inr w'))"
proof (intro conjI impI)
  show "heap (final (Write n p c v w)) = heap w" using Write_frame(1) by blast
  show "\<exists>tr. trace (final (Write n p c v w)) = trace w @ tr \<and> list_all is_write tr"
    using Write_frame(1) by blast
next
  assume a: "Write n p c v w = Inr w'"
  from Write_first[OF a] show "p < length (heap w)" by blast
  from Write_first[OF a] obtain m where
    r: "Write_range m (subs (heap w ! p)) \<lparr>ctx = ctx c, rw = p\<rparr>
             (snd (assertError v)) (fst (assertError v)) v (emit (EvWrite p c v) w) = Inr w'"
    by blast
  have same: "(if snd (assertError v) then ofError (fst (assertError v)) else v) = v"
    by (rule assertError_same) simp
  from Write_range_shape[OF r] obtain trs where
    t: "list_all2 (\<lambda>s tr. \<exists>rest. tr = EvWrite s \<lparr>ctx = ctx c, rw = p\<rparr> v # rest \<and> list_all is_write rest)
          (subs (heap w ! p)) trs"
       "trace w' = trace (emit (EvWrite p c v) w) @ concat trs"
    unfolding same by blast
  from t(1) have "list_all2 (\<lambda>s tr. \<exists>rest. tr = EvWrite s \<lparr>ctx = ctx c, rw = p\<rparr> v # rest)
          (subs (heap w ! p)) trs"
    by (rule list_all2_mono) blast
  with t(2) show "\<exists>trs. list_all2 (\<lambda>s tr. \<exists>rest. tr = EvWrite s \<lparr>ctx = ctx c, rw = p\<rparr> v # rest)
                  (subs (heap w ! p)) trs
               \<and> trace w' = trace w @ EvWrite p c v # concat trs"
    by auto
next
  assume "within n (heap w) p"
  then show "\<exists>w'. Write n p c v w = Inr w'" by (rule Write_returns(1))
qed

theorem Write_forwards_witness:
  "within 3 (heap fan) 0
   \<and> Write 3 0 \<lparr>ctx = NewContext, rw = 7\<rparr> (VInt 42) fan =
       Inr (fan\<lparr>trace := [EvWrite 0 \<lparr>ctx = NewContext, rw = 7\<rparr> (VInt 42),
                            EvWrite 1 \<lparr>ctx = NewContext, rw = 0\<rparr> (VInt 42),
                            EvWrite 2 \<lparr>ctx = NewContext, rw = 1\<rparr> (VInt 42),
                            EvWrite 2 \<lparr>ctx = NewContext, rw = 0\<rparr> (VInt 42)]\<rparr>)
   \<and> (\<exists>trs. list_all2 (\<lambda>s tr. \<exists>rest. tr = EvWrite s \<lparr>ctx = NewContext, rw = 0\<rparr> (VInt 42) # rest)
                [1, 2] trs
             \<and> [EvWrite 0 \<lparr>ctx = NewContext, rw = 7\<rparr> (VInt 42),
                 EvWrite 1 \<lparr>ctx = NewContext, rw = 0\<rparr> (VInt 42),
                 EvWrite 2 \<lparr>ctx = NewContext, rw = 1\<rparr> (VInt 42),
                 EvWrite 2 \<lparr>ctx = NewContext, rw = 0\<rparr> (VInt 42)]
               = EvWrite 0 \<lparr>ctx = NewContext, rw = 7\<rparr> (VInt 42) # concat trs)"
proof -
  let ?c = "\<lparr>ctx = NewContext, rw = 7\<rparr>"
  let ?w' = "fan\<lparr>trace := [EvWrite 0 ?c (VInt 42),
                            EvWrite 1 \<lparr>ctx = NewContext, rw = 0\<rparr> (VInt 42),
                            EvWrite 2 \<lparr>ctx = NewContext, rw = 1\<rparr> (VInt 42),
                            EvWrite 2 \<lparr>ctx = NewContext, rw = 0\<rparr> (VInt 42)]\<rparr>"
  have a: "within 3 (heap fan) 0"
    by (simp add: fan_def numeral_3_eq_3)
  have b: "Write 3 0 ?c (VInt 42) fan = Inr ?w'"
    by (simp add: fan_def numeral_3_eq_3 deref_def emit_def)
  have h: "heap fan ! 0 = \<lparr>uuid = 0, op = forwarder, root = None, async = False, subs = [1, 2]\<rparr>"
    by (simp add: fan_def)
  from Write_forwards_to_every_subscriber [of 3 0 ?c "VInt 42" fan ?w'] a b h
  show ?thesis by (simp add: fan_def)
qed

section \<open>WriteEvery\<close>

lemma WriteEvery_loop_filter:
  "nlen \<le> length sbs \<Longrightarrow>
   WriteEvery_loop n index nlen finder sbs ctxn isErr err v w =
   Write_range n (map ((!) sbs) (filter (selected finder nlen) [index..<nlen])) ctxn isErr err v w"
proof (induction n index nlen finder sbs ctxn isErr err v w rule: WriteEvery_loop.induct)
  case (1 n index nlen finder sbs ctxn isErr err v w)
  show ?case
  proof (cases "index < nlen")
    case False
    then show ?thesis by (subst WriteEvery_loop.simps) simp
  next
    case True
    then have u: "[index..<nlen] = index # [Suc index..<nlen]" by (rule upt_conv_Cons)
    have inb: "index < length sbs" using True "1.prems" by simp
    show ?thesis
    proof (cases "selected finder nlen index")
      case False
      then have "WriteEvery_loop n index nlen finder sbs ctxn isErr err v w =
                 WriteEvery_loop n (Suc index) nlen finder sbs ctxn isErr err v w"
        using True by (subst WriteEvery_loop.simps) (auto simp: selected_def Let_def)
      also have "\<dots> = Write_range n (map ((!) sbs) (filter (selected finder nlen) [Suc index..<nlen]))
                          ctxn isErr err v w"
      proof -
        have c: "\<not> (finder (int index) (int nlen) > 0 \<and> finder (int index) (int nlen) < int nlen)"
          using False by (simp add: selected_def)
        show ?thesis by (rule "1.IH"(2)[OF True refl c "1.prems"])
      qed
      finally show ?thesis using False u by simp
    next
      case sel: True
      let ?r = "if isErr then Write n (sbs ! index) ctxn (ofError err) w
                else Write n (sbs ! index) ctxn v w"
      have step: "WriteEvery_loop n index nlen finder sbs ctxn isErr err v w =
            (case ?r of Inl f \<Rightarrow> Inl f
             | Inr w' \<Rightarrow> WriteEvery_loop n (Suc index) nlen finder sbs ctxn isErr err v w')"
        using True sel inb by (subst WriteEvery_loop.simps) (auto simp: selected_def Let_def)
      have ih: "\<And>w'. ?r = Inr w' \<Longrightarrow>
            WriteEvery_loop n (Suc index) nlen finder sbs ctxn isErr err v w' =
            Write_range n (map ((!) sbs) (filter (selected finder nlen) [Suc index..<nlen]))
                          ctxn isErr err v w'"
      proof -
        fix w' assume r: "?r = Inr w'"
        have c: "finder (int index) (int nlen) > 0 \<and> finder (int index) (int nlen) < int nlen"
          using sel by (simp add: selected_def)
        show "WriteEvery_loop n (Suc index) nlen finder sbs ctxn isErr err v w' =
            Write_range n (map ((!) sbs) (filter (selected finder nlen) [Suc index..<nlen]))
                          ctxn isErr err v w'"
          by (rule "1.IH"(1)[OF True refl c inb refl r "1.prems"])
      qed
      show ?thesis
      proof (cases ?r)
        case (Inl f)
        then show ?thesis unfolding step using sel u by (cases isErr) simp_all
      next
        case (Inr w')
        from ih[OF Inr] Inr show ?thesis unfolding step using sel u by (cases isErr) simp_all
      qed
    qed
  qed
qed

lemma selected_default: "filter (selected defaultFinder N) [0..<N] = [1..<N]"
proof -
  have "filter (selected defaultFinder N) [0..<N] = filter (\<lambda>i. 0 < i) [0..<N]"
    by (rule filter_cong) (auto simp: selected_def defaultFinder_def)
  also have "\<dots> = [1..<N]"
  proof (cases N)
    case 0 then show ?thesis by simp
  next
    case (Suc k)
    have "[0..<Suc k] = 0 # [1..<Suc k]" by (simp add: upt_conv_Cons)
    moreover have "filter (\<lambda>i. 0 < i) [1..<Suc k] = [1..<Suc k]" by (rule filter_True) auto
    ultimately show ?thesis using Suc by simp
  qed
  finally show ?thesis .
qed

lemma nths_tl: "map ((!) xs) [Suc 0..<length xs] = tl xs"
  by (rule nth_equalityI) (auto simp: nth_tl)

lemma WriteEvery_unfold:
  assumes "p < length (heap w)"
  shows "WriteEvery n p c v finder w =
     Write_range n
       (map ((!) (subs (heap w ! p)))
          (filter (selected (case finder of None \<Rightarrow> defaultFinder | Some g \<Rightarrow> g)
                     (length (subs (heap w ! p))))
             [0..<length (subs (heap w ! p))]))
       \<lparr>ctx = ctx c, rw = p\<rparr> (snd (assertError v)) (fst (assertError v)) v
       (emit (EvWriteEvery p c v) w)"
  using assms
  by (simp add: WriteEvery_def Let_def deref_def WriteEvery_loop_filter split: prod.splits)

lemma WriteEvery_frame:
  "heap (final (WriteEvery n p c v finder w)) = heap w \<and>
     (\<exists>tr. trace (final (WriteEvery n p c v finder w)) = trace w @ EvWriteEvery p c v # tr
           \<and> list_all is_write tr)"
proof (cases "p < length (heap w)")
  case True
  from Write_frame(2)[of n _ "\<lparr>ctx = ctx c, rw = p\<rparr>" "snd (assertError v)" "fst (assertError v)" v
      "emit (EvWriteEvery p c v) w"]
  show ?thesis unfolding WriteEvery_unfold[OF True] by auto
next
  case False
  then show ?thesis by (simp add: WriteEvery_def Let_def deref_def split: prod.splits)
qed

text \<open>
  C2. On a node with \<open>N\<close> subscribers, \<open>WriteEvery(ctx, v, finder)\<close> (the finder
  defaulting to \<open>defaultFinder\<close>, the identity on the index) goes through all positions
  \<open>0..N-1\<close> and calls \<open>Write\<close>, as \<open>Write\<close> itself would, on exactly the subscribers
  at the positions \<open>i\<close> with \<open>0 < finder(i, N) < N\<close>, in order. With no finder these are
  the subscribers at positions \<open>1..N-1\<close>: all but the first. When the call returns, the
  trace gained one block per selected subscriber, and it returns whenever the graph
  below the selected subscribers is finite.
\<close>

theorem WriteEvery_forwards_selected:
  assumes "p < length (heap w)"
    and "sbs = subs (heap w ! p)"
    and "f = (case finder of None \<Rightarrow> defaultFinder | Some g \<Rightarrow> g)"
    and "targets = map ((!) sbs) (filter (selected f (length sbs)) [0..<length sbs])"
  shows "WriteEvery n p c v finder w =
           Write_range n targets \<lparr>ctx = ctx c, rw = p\<rparr> (snd (assertError v)) (fst (assertError v)) v
             (emit (EvWriteEvery p c v) w)
         \<and> (finder = None \<longrightarrow> targets = tl sbs)
         \<and> (\<forall>w'. WriteEvery n p c v finder w = Inr w' \<longrightarrow>
               heap w' = heap w \<and>
               (\<exists>trs. list_all2 (\<lambda>s tr. \<exists>rest. tr = EvWrite s \<lparr>ctx = ctx c, rw = p\<rparr> v # rest
                                          \<and> list_all is_write rest) targets trs
                     \<and> trace w' = trace w @ EvWriteEvery p c v # concat trs))
         \<and> (list_all (within n (heap w)) targets \<longrightarrow> (\<exists>w'. WriteEvery n p c v finder w = Inr w'))"
proof -
  let ?ctxn = "\<lparr>ctx = ctx c, rw = p\<rparr>"
  let ?w1 = "emit (EvWriteEvery p c v) w"
  have eq: "WriteEvery n p c v finder w =
           Write_range n targets ?ctxn (snd (assertError v)) (fst (assertError v)) v ?w1"
    using WriteEvery_unfold[OF assms(1), of n c v finder] assms(2-4) by simp
  have dflt: "finder = None \<longrightarrow> targets = tl sbs"
    using assms(3,4) by (auto simp: selected_default nths_tl)
  have same: "(if snd (assertError v) then ofError (fst (assertError v)) else v) = v"
    by (rule assertError_same) simp
  have shape: "\<forall>w'. WriteEvery n p c v finder w = Inr w' \<longrightarrow>
               heap w' = heap w \<and>
               (\<exists>trs. list_all2 (\<lambda>s tr. \<exists>rest. tr = EvWrite s ?ctxn v # rest
                                          \<and> list_all is_write rest) targets trs
                     \<and> trace w' = trace w @ EvWriteEvery p c v # concat trs)"
  proof (intro allI impI)
    fix w' assume r: "WriteEvery n p c v finder w = Inr w'"
    then have r': "Write_range n targets ?ctxn (snd (assertError v)) (fst (assertError v)) v ?w1 = Inr w'"
      using eq by simp
    have h: "heap w' = heap w" using WriteEvery_frame[of n p c v finder w] r by simp
    from Write_range_shape[OF r'] obtain trs where
      "list_all2 (\<lambda>s tr. \<exists>rest. tr = EvWrite s ?ctxn v # rest \<and> list_all is_write rest) targets trs"
      "trace w' = trace ?w1 @ concat trs"
      unfolding same by blast
    with h show "heap w' = heap w \<and>
               (\<exists>trs. list_all2 (\<lambda>s tr. \<exists>rest. tr = EvWrite s ?ctxn v # rest
                                          \<and> list_all is_write rest) targets trs
                     \<and> trace w' = trace w @ EvWriteEvery p c v # concat trs)"
      by auto
  qed
  have ret: "list_all (within n (heap w)) targets \<longrightarrow> (\<exists>w'. WriteEvery n p c v finder w = Inr w')"
    unfolding eq using Write_returns(2)[of n ?w1 targets] by simp
  from eq dflt shape ret show ?thesis by blast
qed

theorem WriteEvery_forwards_witness:
  "0 < length (heap fan)
   \<and> WriteEvery 3 0 \<lparr>ctx = NewContext, rw = 7\<rparr> (VInt 42) None fan =
       Inr (fan\<lparr>trace := [EvWriteEvery 0 \<lparr>ctx = NewContext, rw = 7\<rparr> (VInt 42),
                            EvWrite 2 \<lparr>ctx = NewContext, rw = 0\<rparr> (VInt 42)]\<rparr>)
   \<and> WriteEvery 3 0 \<lparr>ctx = NewContext, rw = 7\<rparr> (VInt 42) (Some (\<lambda>i n. i + 1)) fan =
       Inr (fan\<lparr>trace := [EvWriteEvery 0 \<lparr>ctx = NewContext, rw = 7\<rparr> (VInt 42),
                            EvWrite 1 \<lparr>ctx = NewContext, rw = 0\<rparr> (VInt 42),
                            EvWrite 2 \<lparr>ctx = NewContext, rw = 1\<rparr> (VInt 42)]\<rparr>)"
proof -
  let ?c = "\<lparr>ctx = NewContext, rw = 7\<rparr>"
  have p: "0 < length (heap fan)" by (simp add: fan_def)
  have s: "[1, 2] = subs (heap fan ! 0)" by (simp add: fan_def)
  have t1: "[2] = map ((!) [1, 2::nat]) (filter (selected defaultFinder (length [1, 2::nat])) [0..<length [1, 2::nat]])"
    by (simp add: selected_def defaultFinder_def upt_rec)
  have t2: "[1] = map ((!) [1, 2::nat]) (filter (selected (\<lambda>i n. i + 1) (length [1, 2::nat])) [0..<length [1, 2::nat]])"
    by (simp add: selected_def upt_rec)
  from WriteEvery_forwards_selected [OF p s _ t1, of None 3 ?c "VInt 42"]
  have a: "WriteEvery 3 0 ?c (VInt 42) None fan =
       Inr (fan\<lparr>trace := [EvWriteEvery 0 ?c (VInt 42),
                            EvWrite 2 \<lparr>ctx = NewContext, rw = 0\<rparr> (VInt 42)]\<rparr>)"
    by (simp add: fan_def numeral_3_eq_3 deref_def emit_def)
  from WriteEvery_forwards_selected [OF p s _ t2, of "Some (\<lambda>i n. i + 1)" 3 ?c "VInt 42"]
  have b: "WriteEvery 3 0 ?c (VInt 42) (Some (\<lambda>i n. i + 1)) fan =
       Inr (fan\<lparr>trace := [EvWriteEvery 0 ?c (VInt 42),
                            EvWrite 1 \<lparr>ctx = NewContext, rw = 0\<rparr> (VInt 42),
                            EvWrite 2 \<lparr>ctx = NewContext, rw = 1\<rparr> (VInt 42)]\<rparr>)"
    by (simp add: fan_def numeral_3_eq_3 deref_def emit_def)
  from p a b show ?thesis by blast
qed

section \<open>Registration\<close>

lemma alloc_facts:
  "alloc h a w = (n, w1) \<Longrightarrow>
     n = length (heap w) \<and> trace w1 = trace w \<and>
     heap w1 = heap w @ [\<lparr>uuid = length (heap w), op = h, root = None, async = a, subs = []\<rparr>]"
  by (auto simp: alloc_def)

lemma resolve_None:
  "resolve a R x w = (None, w1) \<Longrightarrow> heap w1 = heap w"
  by (cases x) (auto simp: resolve_def Let_def split: prod.splits if_splits)


lemma resolve_rejects:
  assumes "\<not> IsFuncType R x \<or> length (GetFuncArgumentsType R x) \<noteq> 3
           \<or> \<not> CanSetForType R (ctxType R) (GetFuncArgumentsType R x ! 0)
           \<or> \<not> CanSetForType R (errorType R) (GetFuncArgumentsType R x ! 1)"
  shows "resolve a R (AOther x) w = (None, emit (EvPrintf (''Calling sync default'' @ [CHR 0x0A])) w)"
  using assms by (auto simp: resolve_def Let_def)

lemma signal_with_None:
  "signal_with a R p x w = Inr (None, w') \<Longrightarrow> heap w' = heap w"
  by (auto simp: signal_with_def dest: resolve_None split: prod.splits option.splits if_splits)


lemma Read_exec_frame:
  "heap (final (Read n p b cx w)) = heap w \<and> (\<exists>tr. trace (final (Read n p b cx w)) = trace w @ tr)"
  "heap (final (exec n cs w)) = heap w \<and> (\<exists>tr. trace (final (exec n cs w)) = trace w @ tr)"
proof (induction n p b cx w and n cs w rule: Read_exec.induct)
  case (1 p b ctxs w)
  then show ?case by simp
next
  case (2 n p b ctxs w)
  show ?case
  proof (cases "deref w p")
    case None
    then show ?thesis by (simp add: Let_def)
  next
    case (Some pb)
    obtain err ok where a: "assertError b = (err, ok)" by (cases "assertError b")
    show ?thesis
    proof (cases "async pb")
      case True
      then show ?thesis using Some a by (cases ok) (simp_all add: Let_def)
    next
      case False
      show ?thesis
      proof (cases ok)
        case True
        from "2.IH"(1)[OF refl refl Some a[symmetric] _ \<open>\<not> async pb\<close>] True
        show ?thesis using Some a False by (auto simp: Let_def)
      next
        case nok: False
        from "2.IH"(2)[OF refl refl Some a[symmetric] _ \<open>\<not> async pb\<close>] nok
        show ?thesis using Some a False by (auto simp: Let_def)
      qed
    qed
  qed
next
  case (3 n w)
  then show ?case by simp
next
  case (4 n c cs w)
  let ?r = "case c of CWrite q m v \<Rightarrow> Write n q m v w
            | CWriteEvery q m v f \<Rightarrow> WriteEvery n q m v f w
            | CRead q v cx \<Rightarrow> Read n q v cx w
            | Effect s \<Rightarrow> Inr (emit (EvEffect s) w)"
  have h: "heap (final ?r) = heap w \<and> (\<exists>tr. trace (final ?r) = trace w @ tr)"
  proof (cases c)
    case (CWrite q m v)
    then show ?thesis using Write_frame(1)[of n q m v w] by auto
  next
    case (CWriteEvery q m v f)
    then show ?thesis using WriteEvery_frame[of n q m v f w] by auto
  next
    case (CRead q v cx)
    then show ?thesis using "4.IH"(1) by simp
  next
    case (Effect s)
    then show ?thesis by simp
  qed
  show ?case
  proof (cases ?r)
    case (Inl fw)
    then show ?thesis using h by (cases fw) auto
  next
    case (Inr w')
    from "4.IH"(2)[OF Inr] h Inr show ?thesis by auto
  qed
qed

text \<open>
  C4. For a value that reaches the \<open>default\<close> branch, \<open>Signal\<close> and \<open>AsyncSignal\<close>
  return nil when it is no function, or has a number of parameters other than three,
  or its first parameter does not fit the \<open>Ctx\<close> type, or its second does not fit the
  \<open>error\<close> type, whatever the receiver and the store.
\<close>

theorem Signal_rejects_shape:
  assumes "\<not> IsFuncType R x \<or> length (GetFuncArgumentsType R x) \<noteq> 3
           \<or> \<not> CanSetForType R (ctxType R) (GetFuncArgumentsType R x ! 0)
           \<or> \<not> CanSetForType R (errorType R) (GetFuncArgumentsType R x ! 1)"
  shows "(\<exists>w'. Signal R p (AOther x) w = Inr (None, w'))
         \<and> (\<exists>w'. AsyncSignal R p (AOther x) w = Inr (None, w'))"
  using resolve_rejects[OF assms]
  by (simp add: Signal_def AsyncSignal_def signal_with_def)

theorem Signal_rejects_witness:
  "length (GetFuncArgumentsType shapes (Some [''pub.Ctx'', ''error''])) \<noteq> 3
   \<and> (\<exists>w'. Signal shapes 0 (AOther (Some [''pub.Ctx'', ''error''])) three_nodes = Inr (None, w'))
   \<and> (\<exists>w'. AsyncSignal shapes 0 (AOther (Some [''pub.Ctx'', ''error''])) three_nodes = Inr (None, w'))"
proof -
  have h: "length (GetFuncArgumentsType shapes (Some [''pub.Ctx'', ''error''])) \<noteq> 3"
    by (simp add: shapes_def)
  from Signal_rejects_shape [of shapes "Some [''pub.Ctx'', ''error'']" 0 three_nodes] h
  show ?thesis by blast
qed

text \<open>
  C10. Whenever \<open>Signal\<close> or \<open>AsyncSignal\<close> returns nil, the store is the one before
  the call: no subscriber list changed and no node was made.
\<close>

theorem rejected_Signal_leaves_subscribers:
  "(Signal R p x w = Inr (None, w') \<longrightarrow> heap w' = heap w)
   \<and> (AsyncSignal R p x w = Inr (None, w') \<longrightarrow> heap w' = heap w)"
  by (auto simp: Signal_def AsyncSignal_def dest: signal_with_None)

theorem rejected_Signal_witness:
  "Signal shapes 0 (AOther None) three_nodes
     = Inr (None, emit (EvPrintf (''Calling sync default'' @ [CHR 0x0A])) three_nodes)
   \<and> AsyncSignal shapes 0 (AOther (Some [''int'', ''error'', ''int''])) three_nodes
     = Inr (None, emit (EvPrintf (''Calling sync default'' @ [CHR 0x0A])) three_nodes)
   \<and> heap (emit (EvPrintf (''Calling sync default'' @ [CHR 0x0A])) three_nodes) = heap three_nodes
   \<and> map subs (heap three_nodes) = [[], [], []]"
proof -
  let ?w' = "emit (EvPrintf (''Calling sync default'' @ [CHR 0x0A])) three_nodes"
  have a: "Signal shapes 0 (AOther None) three_nodes = Inr (None, ?w')"
    by (simp add: Signal_def signal_with_def resolve_def shapes_def)
  have b: "AsyncSignal shapes 0 (AOther (Some [''int'', ''error'', ''int''])) three_nodes = Inr (None, ?w')"
    by (simp add: AsyncSignal_def signal_with_def resolve_def shapes_def)
  have c: "map subs (heap three_nodes) = [[], [], []]"
    by (simp add: three_nodes_def Sync_def alloc_def)
  from rejected_Signal_leaves_subscribers [of shapes 0 "AOther None" three_nodes ?w'] a
  have "heap ?w' = heap three_nodes" by blast
  moreover from rejected_Signal_leaves_subscribers
    [of shapes 0 "AOther (Some [''int'', ''error'', ''int''])" three_nodes ?w'] b
  have "heap ?w' = heap three_nodes" by blast
  ultimately show ?thesis using a b c by blast
qed

section \<open>Wrapped handlers\<close>

lemma exec_single_Write: "exec n [CWrite q m d] w = Write n q m d w"
  by (cases "Write n q m d w") simp_all

lemma resolve_ErrorHandler:
  "resolve a R (AErrorHandler eh) w = resolve a R (AHandler (WrapError eh)) w"
  by (simp add: resolve_def WrapError_def)

text \<open>
  C5. The handler made by \<open>WrapError\<close> from an error-only handler \<open>eh\<close>: with no error
  it is \<open>eh\<close> on the absent error; with an error it is one \<open>Write\<close> of the payload on
  the node of its context, whatever \<open>eh\<close> is. \<open>SignalE\<close> and \<open>AsyncSignalE\<close> register
  that handler, and so does the \<open>ErrorHandler\<close> case of \<open>Signal\<close> and \<open>AsyncSignal\<close>.
  Through \<open>Read\<close> on a synchronous node the context's node is the node itself.
\<close>

theorem WrapError_calls_on_absent_error:
  "WrapError eh m None d = eh m None
   \<and> WrapError eh m (Some e) d = [CWrite (rw m) m d]
   \<and> exec n (WrapError eh m (Some e) d) w = Write n (rw m) m d w
   \<and> SignalE R p eh w = Signal R p (AHandler (WrapError eh)) w
   \<and> AsyncSignalE R p eh w = AsyncSignal R p (AHandler (WrapError eh)) w
   \<and> Signal R p (AErrorHandler eh) w = Signal R p (AHandler (WrapError eh)) w
   \<and> AsyncSignal R p (AErrorHandler eh) w = AsyncSignal R p (AHandler (WrapError eh)) w
   \<and> (deref w p = Some pb \<and> \<not> async pb \<and> op pb = WrapError eh \<longrightarrow>
        Read (Suc n) p (VErr e) [] w =
          Write n p \<lparr>ctx = NewContext, rw = p\<rparr> VNil
            (emit (EvHandler p \<lparr>ctx = NewContext, rw = p\<rparr> (Some e) VNil) w)
        \<and> Read (Suc n) p (VInt i) [] w =
          exec n (eh \<lparr>ctx = NewContext, rw = p\<rparr> None)
            (emit (EvHandler p \<lparr>ctx = NewContext, rw = p\<rparr> None (VInt i)) w))"
proof -
  have a: "WrapError eh m None d = eh m None" by (simp add: WrapError_def)
  have b: "WrapError eh m (Some e) d = [CWrite (rw m) m d]" by (simp add: WrapError_def)
  have c: "exec n (WrapError eh m (Some e) d) w = Write n (rw m) m d w"
    unfolding b by (rule exec_single_Write)
  have d: "SignalE R p eh w = Signal R p (AHandler (WrapError eh)) w" by (simp add: SignalE_def)
  have e: "AsyncSignalE R p eh w = AsyncSignal R p (AHandler (WrapError eh)) w"
    by (simp add: AsyncSignalE_def)
  have f: "Signal R p (AErrorHandler eh) w = Signal R p (AHandler (WrapError eh)) w"
    by (simp add: Signal_def signal_with_def resolve_ErrorHandler)
  have g: "AsyncSignal R p (AErrorHandler eh) w = AsyncSignal R p (AHandler (WrapError eh)) w"
    by (simp add: AsyncSignal_def signal_with_def resolve_ErrorHandler)
  have h: "deref w p = Some pb \<and> \<not> async pb \<and> op pb = WrapError eh \<longrightarrow>
        Read (Suc n) p (VErr e) [] w =
          Write n p \<lparr>ctx = NewContext, rw = p\<rparr> VNil
            (emit (EvHandler p \<lparr>ctx = NewContext, rw = p\<rparr> (Some e) VNil) w)
        \<and> Read (Suc n) p (VInt i) [] w =
          exec n (eh \<lparr>ctx = NewContext, rw = p\<rparr> None)
            (emit (EvHandler p \<lparr>ctx = NewContext, rw = p\<rparr> None (VInt i)) w)"
    by (auto simp: Let_def WrapError_def split: sum.splits)
  from a b c d e f g h show ?thesis by blast
qed

theorem WrapError_witness:
  "deref guarded 0 = Some \<lparr>uuid = 0, op = WrapError watcher, root = None, async = False, subs = []\<rparr>
   \<and> Read 2 0 (VErr ''boom'') [] guarded =
       Inr (guarded\<lparr>trace := [EvHandler 0 \<lparr>ctx = NewContext, rw = 0\<rparr> (Some ''boom'') VNil,
                                EvWrite 0 \<lparr>ctx = NewContext, rw = 0\<rparr> VNil]\<rparr>)
   \<and> Read 2 0 (VInt 5) [] guarded =
       Inr (guarded\<lparr>trace := [EvHandler 0 \<lparr>ctx = NewContext, rw = 0\<rparr> None (VInt 5),
                                EvEffect ''seen'']\<rparr>)"
proof -
  let ?pb = "\<lparr>uuid = 0, op = WrapError watcher, root = None, async = False, subs = []\<rparr>"
  let ?m = "\<lparr>ctx = NewContext, rw = 0\<rparr>"
  have d: "deref guarded 0 = Some ?pb"
    by (simp add: guarded_def Sync_def alloc_def deref_def)
  have s: "Suc (Suc 0) = 2" by simp
  from WrapError_calls_on_absent_error [of watcher ?m "VNil" "''boom''" 1 guarded no_reflection 0 ?pb 5] d
  have r: "Read 2 0 (VErr ''boom'') [] guarded = Write 1 0 ?m VNil (emit (EvHandler 0 ?m (Some ''boom'') VNil) guarded)"
          "Read 2 0 (VInt 5) [] guarded = exec 1 (watcher ?m None) (emit (EvHandler 0 ?m None (VInt 5)) guarded)"
    by (simp_all add: s)
  have a: "Write 1 0 ?m VNil (emit (EvHandler 0 ?m (Some ''boom'') VNil) guarded)
           = Inr (guarded\<lparr>trace := [EvHandler 0 ?m (Some ''boom'') VNil, EvWrite 0 ?m VNil]\<rparr>)"
    by (simp add: guarded_def Sync_def alloc_def deref_def emit_def)
  have b: "exec 1 (watcher ?m None) (emit (EvHandler 0 ?m None (VInt 5)) guarded)
           = Inr (guarded\<lparr>trace := [EvHandler 0 ?m None (VInt 5), EvEffect ''seen'']\<rparr>)"
    by (simp add: guarded_def Sync_def alloc_def watcher_def emit_def)
  from d r a b show ?thesis by simp
qed

section \<open>Growth of subscriber lists\<close>



section \<open>Lift\<close>

lemma Signal_ANode:
  "p < length (heap w) \<Longrightarrow>
   Signal R p (ANode n) w =
     Inr (Some n, w\<lparr>heap := (heap w)[p := (heap w ! p)\<lparr>subs := subs (heap w ! p) @ [n]\<rparr>]\<rparr>)"
  by (simp add: Signal_def signal_with_def resolve_def)

lemma Lift_loop_chain:
  "1 \<le> index \<Longrightarrow> \<forall>r\<in>set rws. r < length (heap w) \<Longrightarrow>
   \<exists>w'. Lift_loop R index rws w = Inr w' \<and> length (heap w') = length (heap w)
        \<and> trace w' = trace w
        \<and> (\<forall>q<length (heap w). heap w' ! q =
              (heap w ! q)\<lparr>subs := subs (heap w ! q)
                 @ map ((!) rws) (filter (\<lambda>j. rws ! (j - 1) = q) [nat index..<length rws])\<rparr>)"
proof (induction R index rws w rule: Lift_loop.induct)
  case (1 R index rws w)
  show ?case
  proof (cases "index < int (length rws)")
    case False
    then have "[nat index..<length rws] = []" by simp
    then show ?thesis using False by (subst Lift_loop.simps) simp
  next
    case True
    let ?i = "nat index"
    let ?nd = "rws ! ?i"
    let ?pn = "rws ! (?i - 1)"
    let ?w1 = "w\<lparr>heap := (heap w)[?pn := (heap w ! ?pn)\<lparr>subs := subs (heap w ! ?pn) @ [?nd]\<rparr>]\<rparr>"
    have i: "?i < length rws" "1 \<le> ?i" using True "1.prems"(1) by simp_all
    have a1: "at rws index = Some ?nd" using True "1.prems"(1) by (simp add: at_def)
    have a2: "at rws (index - 1) = Some ?pn"
      using True "1.prems"(1) by (simp add: at_def nat_diff_distrib)
    have pv: "?pn < length (heap w)" using "1.prems"(2) i by simp
    have sg: "Signal R ?pn (ANode ?nd) w = Inr (Some ?nd, ?w1)" by (rule Signal_ANode[OF pv])
    have n1: "\<not> index < 1" using "1.prems"(1) by simp
    have step: "Lift_loop R index rws w = Lift_loop R (index + 1) rws ?w1"
      using True n1 a1 a2 sg by (subst Lift_loop.simps) simp
    have v1: "\<forall>r\<in>set rws. r < length (heap ?w1)" using "1.prems"(2) by simp
    have "1 \<le> index + 1" using "1.prems"(1) by simp
    from "1.IH"(2)[OF True n1 a1 a2 sg refl this v1]
    obtain w' where
      r: "Lift_loop R (index + 1) rws ?w1 = Inr w'" and
      l: "length (heap w') = length (heap ?w1)" and
      t: "trace w' = trace ?w1" and
      h: "\<forall>q<length (heap ?w1). heap w' ! q =
              (heap ?w1 ! q)\<lparr>subs := subs (heap ?w1 ! q)
                 @ map ((!) rws) (filter (\<lambda>j. rws ! (j - 1) = q) [nat (index + 1)..<length rws])\<rparr>"
      by blast
    have u: "[?i..<length rws] = ?i # [nat (index + 1)..<length rws]"
      using i(1) "1.prems"(1) by (simp add: upt_conv_Cons nat_add_distrib)
    have "\<forall>q<length (heap w). heap w' ! q =
              (heap w ! q)\<lparr>subs := subs (heap w ! q)
                 @ map ((!) rws) (filter (\<lambda>j. rws ! (j - 1) = q) [?i..<length rws])\<rparr>"
    proof (intro allI impI)
      fix q assume q: "q < length (heap w)"
      then have hq: "heap w' ! q =
              (heap ?w1 ! q)\<lparr>subs := subs (heap ?w1 ! q)
                 @ map ((!) rws) (filter (\<lambda>j. rws ! (j - 1) = q) [nat (index + 1)..<length rws])\<rparr>"
        using h by simp
      show "heap w' ! q =
              (heap w ! q)\<lparr>subs := subs (heap w ! q)
                 @ map ((!) rws) (filter (\<lambda>j. rws ! (j - 1) = q) [?i..<length rws])\<rparr>"
      proof (cases "?pn = q")
        case True
        then show ?thesis using hq q unfolding u by simp
      next
        case False
        then show ?thesis using hq q unfolding u by simp
      qed
    qed
    with r l t step show ?thesis by simp
  qed
qed

text \<open>
  C7. On nodes of the store, \<open>Lift(nodes...)\<close> returns, makes no node and leaves the
  trace alone, and every node \<open>q\<close> ends with its old subscribers followed by the
  \<open>nodes[i]\<close>, for \<open>i\<close> from 1 to \<open>N-1\<close> in order, whose predecessor \<open>nodes[i-1]\<close> is
  \<open>q\<close>; nothing else of a node changes. For three distinct nodes \<open>a\<close>, \<open>b\<close>, \<open>c\<close> that is
  \<open>b\<close> under \<open>a\<close> and \<open>c\<close> under \<open>b\<close>.
\<close>

theorem Lift_chains_forward:
  assumes "\<forall>r\<in>set rws. r < length (heap w)"
  shows "\<exists>w'. Lift R rws w = Inr w' \<and> length (heap w') = length (heap w)
        \<and> trace w' = trace w
        \<and> (\<forall>q<length (heap w). heap w' ! q =
              (heap w ! q)\<lparr>subs := subs (heap w ! q)
                 @ map ((!) rws) (filter (\<lambda>i. rws ! (i - 1) = q) [1..<length rws])\<rparr>)"
proof (cases "rws = []")
  case True
  then show ?thesis by (simp add: Lift_def Lift_loop.simps)
next
  case False
  then have "Lift R rws w = Lift_loop R 1 rws w"
    unfolding Lift_def by (subst Lift_loop.simps) simp
  with Lift_loop_chain[of 1 rws w R] assms show ?thesis by simp
qed

theorem Lift_chains_witness:
  "length (heap three_nodes) = 3
   \<and> (\<exists>w'. Lift no_reflection [0, 1, 2] three_nodes = Inr w'
          \<and> length (heap w') = length (heap three_nodes)
          \<and> map subs (heap w') = [[1], [2], []])"
proof -
  let ?W = "\<lparr>heap = [\<lparr>uuid = 0, op = forwarder, root = None, async = False, subs = [1]\<rparr>,
                   \<lparr>uuid = 1, op = recorder, root = None, async = False, subs = [2]\<rparr>,
                   \<lparr>uuid = 2, op = recorder, root = None, async = False, subs = []\<rparr>],
           trace = []\<rparr>"
  have v: "\<forall>r\<in>set [0, 1, 2]. r < length (heap three_nodes)"
    by (simp add: three_nodes_def Sync_def alloc_def)
  have r: "Lift no_reflection [0, 1, 2] three_nodes = Inr ?W"
    by (simp add: Lift_def Lift_loop.simps at_def Signal_def signal_with_def resolve_def
          three_nodes_def Sync_def alloc_def)
  from Lift_chains_forward [OF v, of no_reflection] r
  have "length (heap ?W) = length (heap three_nodes)" by auto
  moreover have "length (heap three_nodes) = 3"
    by (simp add: three_nodes_def Sync_def alloc_def)
  ultimately show ?thesis using r by simp
qed

section \<open>Read on a synchronous node\<close>

lemma writes_not_handlers: "list_all is_write tr \<Longrightarrow> filter is_handler tr = []"
proof (induction tr)
  case Nil
  then show ?case by simp
next
  case (Cons e tr)
  then show ?case by (cases e) simp_all
qed

lemma Write_quiet:
  assumes "within n (heap w) q"
  shows "\<exists>w'. Write n q m v w = Inr w' \<and> heap w' = heap w
             \<and> filter is_handler (trace w') = filter is_handler (trace w)"
proof -
  from Write_returns(1)[OF assms] obtain w' where r: "Write n q m v w = Inr w'" by blast
  from Write_frame(1)[of n q m v w] r obtain tr where
    "heap w' = heap w" "trace w' = trace w @ tr" "list_all is_write tr" by auto
  with r show ?thesis by (simp add: writes_not_handlers)
qed

lemma WriteEvery_quiet:
  assumes "q < length (heap w)" "list_all (within n (heap w)) (subs (heap w ! q))"
  shows "\<exists>w'. WriteEvery n q m v f w = Inr w' \<and> heap w' = heap w
             \<and> filter is_handler (trace w') = filter is_handler (trace w)"
proof -
  let ?sbs = "subs (heap w ! q)"
  let ?targets = "map ((!) ?sbs)
          (filter (selected (case f of None \<Rightarrow> defaultFinder | Some g \<Rightarrow> g) (length ?sbs))
             [0..<length ?sbs])"
  have "set ?targets \<subseteq> set ?sbs" by auto
  with assms(2) have t: "list_all (within n (heap (emit (EvWriteEvery q m v) w))) ?targets"
    by (auto simp: list_all_iff)
  from Write_returns(2)[OF t] obtain w' where r: "WriteEvery n q m v f w = Inr w'"
    unfolding WriteEvery_unfold[OF assms(1)] by blast
  from WriteEvery_frame[of n q m v f w] r obtain tr where
    "heap w' = heap w" "trace w' = trace w @ EvWriteEvery q m v # tr" "list_all is_write tr" by auto
  with r show ?thesis by (simp add: writes_not_handlers)
qed

lemma exec_quiet:
  "list_all (stays_within n (heap w)) cs \<Longrightarrow>
   \<exists>w'. exec n cs w = Inr w' \<and> heap w' = heap w
        \<and> filter is_handler (trace w') = filter is_handler (trace w)"
proof (induction cs arbitrary: w)
  case Nil
  then show ?case by simp
next
  case (Cons c cs)
  let ?r = "case c of CWrite q m v \<Rightarrow> Write n q m v w
            | CWriteEvery q m v f \<Rightarrow> WriteEvery n q m v f w
            | CRead q v cx \<Rightarrow> Read n q v cx w
            | Effect s \<Rightarrow> Inr (emit (EvEffect s) w)"
  from Cons.prems have c: "stays_within n (heap w) c" and cs: "list_all (stays_within n (heap w)) cs"
    by simp_all
  have "\<exists>w1. ?r = Inr w1 \<and> heap w1 = heap w
             \<and> filter is_handler (trace w1) = filter is_handler (trace w)"
  proof (cases c)
    case (CWrite q m v)
    then show ?thesis using c Write_quiet[of n w q m v] by simp
  next
    case (CWriteEvery q m v f)
    then show ?thesis using c WriteEvery_quiet[of q w n m v f] by simp
  next
    case (CRead q v cx)
    then show ?thesis using c by simp
  next
    case (Effect s)
    then show ?thesis by simp
  qed
  then obtain w1 where r: "?r = Inr w1" and h: "heap w1 = heap w"
    and t: "filter is_handler (trace w1) = filter is_handler (trace w)" by blast
  from Cons.IH[of w1] cs h obtain w' where
    "exec n cs w1 = Inr w'" "heap w' = heap w1"
    "filter is_handler (trace w') = filter is_handler (trace w1)" by auto
  with r h t show ?case by simp
qed

lemma Read_sync:
  assumes "deref w p = Some pb" "\<not> async pb"
  shows "Read (Suc n) p (VErr e) cx w =
           exec n (op pb \<lparr>ctx = (case cx of [] \<Rightarrow> NewContext | c0 # _ \<Rightarrow> c0), rw = p\<rparr> (Some e) VNil)
             (emit (EvHandler p \<lparr>ctx = (case cx of [] \<Rightarrow> NewContext | c0 # _ \<Rightarrow> c0), rw = p\<rparr> (Some e) VNil) w)"
    and "(\<forall>e. b \<noteq> VErr e) \<Longrightarrow> Read (Suc n) p b cx w =
           exec n (op pb \<lparr>ctx = (case cx of [] \<Rightarrow> NewContext | c0 # _ \<Rightarrow> c0), rw = p\<rparr> None b)
             (emit (EvHandler p \<lparr>ctx = (case cx of [] \<Rightarrow> NewContext | c0 # _ \<Rightarrow> c0), rw = p\<rparr> None b) w)"
  using assms by (cases b; simp add: Let_def)+

lemma Read_each_quiet:
  assumes "p < length h" "\<not> async (h ! p)"
    and "\<forall>e d. list_all (stays_within n h) (op (h ! p) \<lparr>ctx = NewContext, rw = p\<rparr> e d)"
  shows "heap w = h \<Longrightarrow>
     \<exists>w'. Read_each (Suc n) p bs w = Inr w' \<and> heap w' = h
        \<and> filter is_handler (trace w') =
            filter is_handler (trace w) @ map (invocation p \<lparr>ctx = NewContext, rw = p\<rparr>) bs"
proof (induction bs arbitrary: w)
  case Nil
  then show ?case by simp
next
  case (Cons b bs)
  let ?m = "\<lparr>ctx = NewContext, rw = p\<rparr>"
  have d: "deref w p = Some (h ! p)" using assms(1) Cons.prems by (simp add: deref_def)
  have "\<exists>w1. Read (Suc n) p b [] w = Inr w1 \<and> heap w1 = h
          \<and> filter is_handler (trace w1) = filter is_handler (trace w) @ [invocation p ?m b]"
  proof (cases "\<exists>e. b = VErr e")
    case True
    then obtain e where b: "b = VErr e" by blast
    let ?w0 = "emit (EvHandler p ?m (Some e) VNil) w"
    have q: "list_all (stays_within n (heap ?w0)) (op (h ! p) ?m (Some e) VNil)"
      using assms(3) Cons.prems by simp
    from exec_quiet[OF q] show ?thesis
      using Read_sync(1)[OF d assms(2), of n e "[]"] b Cons.prems by (auto simp: invocation_def)
  next
    case False
    let ?w0 = "emit (EvHandler p ?m None b) w"
    have q: "list_all (stays_within n (heap ?w0)) (op (h ! p) ?m None b)"
      using assms(3) Cons.prems by simp
    have i: "invocation p ?m b = EvHandler p ?m None b"
      using False by (cases b) (simp_all add: invocation_def)
    from exec_quiet[OF q] show ?thesis
      using Read_sync(2)[OF d assms(2), of b n "[]"] False Cons.prems i by auto
  qed
  then obtain w1 where r: "Read (Suc n) p b [] w = Inr w1" and h1: "heap w1 = h"
    and t: "filter is_handler (trace w1) = filter is_handler (trace w) @ [invocation p ?m b]"
    by blast
  from Cons.IH[OF h1] obtain w' where
    "Read_each (Suc n) p bs w1 = Inr w'" "heap w' = h"
    "filter is_handler (trace w') = filter is_handler (trace w1) @ map (invocation p ?m) bs"
    by blast
  with r t show ?case by simp
qed

text \<open>
  C6. On a synchronous node, \<open>Read(v)\<close> is the invocation of the node's handler
  followed by what the handler body does: with \<open>(context, v, nil)\<close> for an error-class
  \<open>v\<close>, with \<open>(context, nil, v)\<close> otherwise, the context being built around the node.
  The invocation is in the trace however the body ends. When the handler body never
  reads and writes only into finite parts of the graph, a sequence of \<open>Read\<close> calls
  returns, and the handler invocations it adds to the trace are exactly one per
  call, in call order.
\<close>

theorem sync_Read_invokes_handler_once:
  assumes "deref w p = Some pb" and "\<not> async pb"
    and "m = \<lparr>ctx = (case cx of [] \<Rightarrow> NewContext | c0 # _ \<Rightarrow> c0), rw = p\<rparr>"
  shows "Read (Suc n) p (VErr e) cx w =
           exec n (op pb m (Some e) VNil) (emit (EvHandler p m (Some e) VNil) w)
       \<and> ((\<forall>e. b \<noteq> VErr e) \<longrightarrow>
           Read (Suc n) p b cx w = exec n (op pb m None b) (emit (EvHandler p m None b) w))
       \<and> (\<exists>tr. trace (final (Read (Suc n) p b cx w)) = trace w @ invocation p m b # tr)
       \<and> ((\<forall>e d. list_all (stays_within n (heap w)) (op pb \<lparr>ctx = NewContext, rw = p\<rparr> e d)) \<longrightarrow>
           (\<exists>w'. Read_each (Suc n) p bs w = Inr w' \<and> heap w' = heap w
              \<and> filter is_handler (trace w') =
                  filter is_handler (trace w) @ map (invocation p \<lparr>ctx = NewContext, rw = p\<rparr>) bs))"
proof -
  have a: "Read (Suc n) p (VErr e) cx w =
           exec n (op pb m (Some e) VNil) (emit (EvHandler p m (Some e) VNil) w)" for e
    unfolding assms(3) by (rule Read_sync(1)[OF assms(1,2)])
  have b: "(\<forall>e. b \<noteq> VErr e) \<longrightarrow>
           Read (Suc n) p b cx w = exec n (op pb m None b) (emit (EvHandler p m None b) w)"
    unfolding assms(3) using Read_sync(2)[OF assms(1,2)] by blast
  have c: "\<exists>tr. trace (final (Read (Suc n) p b cx w)) = trace w @ invocation p m b # tr"
  proof (cases "\<exists>e. b = VErr e")
    case True
    then obtain e where be: "b = VErr e" by blast
    from Read_exec_frame(2)[of n "op pb m (Some e) VNil" "emit (EvHandler p m (Some e) VNil) w"]
    show ?thesis using a[of e] be by (auto simp: invocation_def)
  next
    case False
    then have i: "invocation p m b = EvHandler p m None b"
      by (cases b) (simp_all add: invocation_def)
    from Read_exec_frame(2)[of n "op pb m None b" "emit (EvHandler p m None b) w"]
    show ?thesis using b False i by auto
  qed
  have pv: "p < length (heap w)" and pb: "pb = heap w ! p"
    using assms(1) by (auto simp: deref_def split: if_splits)
  have d: "(\<forall>e d. list_all (stays_within n (heap w)) (op pb \<lparr>ctx = NewContext, rw = p\<rparr> e d)) \<longrightarrow>
           (\<exists>w'. Read_each (Suc n) p bs w = Inr w' \<and> heap w' = heap w
              \<and> filter is_handler (trace w') =
                  filter is_handler (trace w) @ map (invocation p \<lparr>ctx = NewContext, rw = p\<rparr>) bs)"
    using Read_each_quiet[OF pv, of n w bs] assms(2) unfolding pb by blast
  from a b c d show ?thesis by blast
qed

theorem sync_Read_witness:
  "deref fan 0 = Some \<lparr>uuid = 0, op = forwarder, root = None, async = False, subs = [1, 2]\<rparr>
   \<and> (\<forall>e d. list_all (stays_within 3 (heap fan)) (forwarder \<lparr>ctx = NewContext, rw = 0\<rparr> e d))
   \<and> Read 4 0 (VInt 42) [] fan =
       Inr (fan\<lparr>trace := [EvHandler 0 \<lparr>ctx = NewContext, rw = 0\<rparr> None (VInt 42),
                            EvWrite 0 \<lparr>ctx = NewContext, rw = 0\<rparr> (VInt 42),
                            EvWrite 1 \<lparr>ctx = NewContext, rw = 0\<rparr> (VInt 42),
                            EvWrite 2 \<lparr>ctx = NewContext, rw = 1\<rparr> (VInt 42),
                            EvWrite 2 \<lparr>ctx = NewContext, rw = 0\<rparr> (VInt 42),
                            EvEffect ''count'']\<rparr>)
   \<and> (\<exists>w'. Read_each 4 0 [VInt 1, VErr ''lost'', VStr ''a''] fan = Inr w'
          \<and> filter is_handler (trace w') =
               [EvHandler 0 \<lparr>ctx = NewContext, rw = 0\<rparr> None (VInt 1),
                EvHandler 0 \<lparr>ctx = NewContext, rw = 0\<rparr> (Some ''lost'') VNil,
                EvHandler 0 \<lparr>ctx = NewContext, rw = 0\<rparr> None (VStr ''a'')])"
proof -
  let ?pb = "\<lparr>uuid = 0, op = forwarder, root = None, async = False, subs = [1, 2]\<rparr>"
  let ?m = "\<lparr>ctx = NewContext, rw = 0\<rparr>"
  have d: "deref fan 0 = Some ?pb" by (simp add: fan_def deref_def)
  have s: "\<not> async ?pb" by simp
  have m: "?m = \<lparr>ctx = (case [] of [] \<Rightarrow> NewContext | c0 # _ \<Rightarrow> c0), rw = 0\<rparr>" by simp
  have q: "\<forall>e d. list_all (stays_within 3 (heap fan)) (forwarder ?m e d)"
    by (simp add: forwarder_def fan_def numeral_3_eq_3)
  have q': "\<forall>e d. list_all (stays_within 3 (heap fan)) (op ?pb ?m e d)" using q by simp
  have f: "Suc 3 = 4" by simp
  note T = sync_Read_invokes_handler_once [OF d s m, of 3 _ "VInt 42" "[VInt 1, VErr ''lost'', VStr ''a'']"]
  from T have "Read 4 0 (VInt 42) [] fan = exec 3 (op ?pb ?m None (VInt 42)) (emit (EvHandler 0 ?m None (VInt 42)) fan)"
    unfolding f by blast
  also have "\<dots> = Inr (fan\<lparr>trace := [EvHandler 0 ?m None (VInt 42),
                            EvWrite 0 ?m (VInt 42),
                            EvWrite 1 ?m (VInt 42),
                            EvWrite 2 \<lparr>ctx = NewContext, rw = 1\<rparr> (VInt 42),
                            EvWrite 2 ?m (VInt 42),
                            EvEffect ''count'']\<rparr>)"
    by (simp add: forwarder_def fan_def numeral_3_eq_3 deref_def emit_def)
  finally have a: "Read 4 0 (VInt 42) [] fan = Inr (fan\<lparr>trace := [EvHandler 0 ?m None (VInt 42),
                            EvWrite 0 ?m (VInt 42),
                            EvWrite 1 ?m (VInt 42),
                            EvWrite 2 \<lparr>ctx = NewContext, rw = 1\<rparr> (VInt 42),
                            EvWrite 2 ?m (VInt 42),
                            EvEffect ''count'']\<rparr>)" .
  from T q' have "\<exists>w'. Read_each 4 0 [VInt 1, VErr ''lost'', VStr ''a''] fan = Inr w'
          \<and> filter is_handler (trace w') =
              filter is_handler (trace fan) @ map (invocation 0 ?m) [VInt 1, VErr ''lost'', VStr ''a'']"
    unfolding f by blast
  then have b: "\<exists>w'. Read_each 4 0 [VInt 1, VErr ''lost'', VStr ''a''] fan = Inr w'
          \<and> filter is_handler (trace w') =
               [EvHandler 0 ?m None (VInt 1), EvHandler 0 ?m (Some ''lost'') VNil,
                EvHandler 0 ?m None (VStr ''a'')]"
    by (simp add: invocation_def fan_def)
  from d q a b show ?thesis by blast
qed

section \<open>DeLift\<close>

text \<open>On two or more nodes of the store the loop of \<open>DeLift\<close> always ends in the index fault.\<close>

lemma DeLift_loop_faults:
  "0 \<le> index \<Longrightarrow> index < int (length rws) - 1 \<Longrightarrow> \<forall>r\<in>set rws. r < length (heap w) \<Longrightarrow>
   \<exists>w'. DeLift_loop R index rws w = Inl (IndexOutOfRange, w')"
proof (induction R index rws w rule: DeLift_loop.induct)
  case (1 R index rws w)
  let ?pn = "rws ! nat index"
  have g: "\<not> index \<ge> int (length rws) - 1" using "1.prems"(2) by simp
  have a1: "at rws index = Some ?pn" using "1.prems"(1,2) by (simp add: at_def)
  show ?case
  proof (cases "index = 0")
    case True
    then have "at rws (index - 1) = None" by (simp add: at_def)
    then show ?thesis using "1.prems"(1) g a1 by (subst DeLift_loop.simps) simp
  next
    case False
    let ?nd = "rws ! nat (index - 1)"
    let ?w1 = "w\<lparr>heap := (heap w)[?pn := (heap w ! ?pn)\<lparr>subs := subs (heap w ! ?pn) @ [?nd]\<rparr>]\<rparr>"
    have a2: "at rws (index - 1) = Some ?nd" using False "1.prems"(1,2) by (simp add: at_def)
    have pv: "?pn < length (heap w)" using "1.prems" by simp
    have sg: "Signal R ?pn (ANode ?nd) w = Inr (Some ?nd, ?w1)" by (rule Signal_ANode[OF pv])
    have step: "DeLift_loop R index rws w = DeLift_loop R (index - 1) rws ?w1"
      using "1.prems"(1) g a1 a2 sg by (subst DeLift_loop.simps) simp
    have "0 \<le> index - 1" "index - 1 < int (length rws) - 1" "\<forall>r\<in>set rws. r < length (heap ?w1)"
      using False "1.prems" by simp_all
    from "1.IH"(2)[OF "1.prems"(1) g a1 a2 sg refl this] step show ?thesis by simp
  qed
qed

lemma DeLift_faults:
  assumes "2 \<le> length rws" "\<forall>r\<in>set rws. r < length (heap w)"
  shows "\<exists>w'. DeLift R rws w = Inl (IndexOutOfRange, w')"
proof -
  have ne: "rws \<noteq> []" using assms(1) by auto
  have "int (length rws) - 1 - 1 = int (length rws) - 2" by simp
  then have "DeLift R rws w = DeLift_loop R (int (length rws) - 2) rws w"
    unfolding DeLift_def using ne by (subst DeLift_loop.simps) simp
  with DeLift_loop_faults[of "int (length rws) - 2" rws w R] assms show ?thesis by simp
qed

text \<open>
  C1. \<open>DeLift(a, b, c)\<close> on three fresh nodes skips the last index, registers \<open>a\<close> as a
  subscriber of \<open>b\<close>, and at index 0 reads \<open>rws[-1]\<close>: it stops with an index fault,
  and \<open>c\<close> never gets \<open>b\<close> as a subscriber.
\<close>

theorem DeLift_three_panics:
  "(case DeLift no_reflection [0, 1, 2] three_nodes of
      Inl (f, w) \<Rightarrow> f = IndexOutOfRange \<and> map subs (heap w) = [[], [0], []]
    | Inr w \<Rightarrow> False)"
  by (simp add: DeLift_def DeLift_loop.simps at_def Signal_def signal_with_def resolve_def
       three_nodes_def Sync_def alloc_def)

end
